theory Spec2Isabelle
  imports Main
begin

section \<open>Dates and times\<close>

text \<open>
  A naive \<^verbatim>\<open>datetime.datetime\<close> is kept as the proleptic Gregorian ordinal of its date
  (\<^verbatim>\<open>date.toordinal()\<close>: day 1 is 0001-01-01) together with its time-of-day fields.
  The ordinal is in order-preserving bijection with (year, month, day), and it is the
  representation in which the standard library itself adds a \<^verbatim>\<open>timedelta\<close>. Datetimes are
  naive (without time zone), as \<^verbatim>\<open>strptime\<close> with this format and \<^verbatim>\<open>datetime.now()\<close> give them.
\<close>

record datetime =
  ordinal :: int
  hour :: int
  minute :: int
  second :: int
  microsecond :: int

text \<open>\<^verbatim>\<open>date.max.toordinal()\<close>, the ordinal of 9999-12-31.\<close>

definition MAXORDINAL :: int where
  "MAXORDINAL = 3652059"

definition valid_datetime :: "datetime \<Rightarrow> bool" where
  "valid_datetime d \<longleftrightarrow>
     1 \<le> ordinal d \<and> ordinal d \<le> MAXORDINAL \<and>
     0 \<le> hour d \<and> hour d < 24 \<and>
     0 \<le> minute d \<and> minute d < 60 \<and>
     0 \<le> second d \<and> second d < 60 \<and>
     0 \<le> microsecond d \<and> microsecond d < 1000000"

text \<open>The standard library's conversion of a calendar date to its ordinal, used to write dates.\<close>

definition is_leap :: "int \<Rightarrow> bool" where
  "is_leap y \<longleftrightarrow> y mod 4 = 0 \<and> (y mod 100 \<noteq> 0 \<or> y mod 400 = 0)"

definition days_before_year :: "int \<Rightarrow> int" where
  "days_before_year year = (let y = year - 1 in y * 365 + y div 4 - y div 100 + y div 400)"

definition days_before_month :: "int \<Rightarrow> int \<Rightarrow> int" where
  "days_before_month year month =
     [0, 0, 31, 59, 90, 120, 151, 181, 212, 243, 273, 304, 334] ! nat month
       + (if month > 2 \<and> is_leap year then 1 else 0)"

definition ymd2ord :: "int \<Rightarrow> int \<Rightarrow> int \<Rightarrow> int" where
  "ymd2ord year month day = days_before_year year + days_before_month year month + day"

definition mk_datetime :: "int \<Rightarrow> int \<Rightarrow> int \<Rightarrow> int \<Rightarrow> int \<Rightarrow> int \<Rightarrow> datetime" where
  "mk_datetime y m d h mi s =
     \<lparr>ordinal = ymd2ord y m d, hour = h, minute = mi, second = s, microsecond = 0\<rparr>"

text \<open>Microseconds since the start of day 0; the difference of two is their \<^verbatim>\<open>timedelta\<close>.\<close>

definition day_us :: int where
  "day_us = 86400000000"

definition to_us :: "datetime \<Rightarrow> int" where
  "to_us d = (((ordinal d * 24 + hour d) * 60 + minute d) * 60 + second d) * 1000000 + microsecond d"

text \<open>\<^verbatim>\<open>a < b\<close> on datetimes compares the fields lexicographically.\<close>

definition dt_less :: "datetime \<Rightarrow> datetime \<Rightarrow> bool" where
  "dt_less a b \<longleftrightarrow>
     ordinal a < ordinal b \<or> (ordinal a = ordinal b \<and>
     (hour a < hour b \<or> (hour a = hour b \<and>
     (minute a < minute b \<or> (minute a = minute b \<and>
     (second a < second b \<or> (second a = second b \<and> microsecond a < microsecond b)))))))"

text \<open>
  Exceptions. \<open>OverflowError\<close> and \<open>TypeError\<close> are raised by the operations of \<^verbatim>\<open>trades\<close>
  itself, \<open>ValueError m\<close> is the one \<^verbatim>\<open>fetch_trades\<close> raises with message \<open>m\<close>, and \<open>Raised e\<close>
  is an exception \<open>e\<close> of a collaborator (time conversion, transport, JSON decoding), which
  the code never catches.
\<close>

datatype 'e exn = OverflowError | TypeError | ValueError string | Raised 'e

text \<open>\<^verbatim>\<open>d.replace(second=0, minute=0, hour=0, microsecond=0)\<close>\<close>

definition replace_midnight :: "datetime \<Rightarrow> datetime" where
  "replace_midnight d = d\<lparr>second := 0, minute := 0, hour := 0, microsecond := 0\<rparr>"

text \<open>
  \<^verbatim>\<open>d + datetime.timedelta(days=n)\<close>: the time of day is kept; \<open>None\<close> is the
  \<^verbatim>\<open>OverflowError\<close> raised for a date outside 0001-01-01 .. 9999-12-31.
\<close>

definition add_days :: "datetime \<Rightarrow> int \<Rightarrow> datetime option" where
  "add_days d n =
     (if 0 < ordinal d + n \<and> ordinal d + n \<le> MAXORDINAL
      then Some (d\<lparr>ordinal := ordinal d + n\<rparr>) else None)"

section \<open>The connection\<close>

text \<open>
  The decoded JSON value under the key \<^verbatim>\<open>data\<close>: \<open>Sequence xs\<close> is a value that Python
  can iterate and take the \<^verbatim>\<open>len\<close> of, with \<open>xs\<close> its elements in iteration order (the JSON
  array of records the service answers with); \<open>Scalar\<close> is null, a number or a boolean,
  on which \<^verbatim>\<open>list.extend\<close> and \<^verbatim>\<open>len\<close> raise \<^verbatim>\<open>TypeError\<close>.
\<close>

datatype 'r data = Sequence "'r list" | Scalar

datatype pval = PInt int | PStr string

type_synonym post_data = "(string \<times> pval) list"

text \<open>
  What the connection does not compute itself is a parameter:
  \<^item> \<open>epoch_seconds d\<close> is \<^verbatim>\<open>int(d.timestamp())\<close>, which for a naive datetime depends on
    the time zone of the process and raises outside the platform's range;
  \<^item> \<open>post w url form\<close> is \<^verbatim>\<open>requests.post\<close> with the connection's headers and cookies,
    followed by \<^verbatim>\<open>json.loads\<close> and the two subscripts \<^verbatim>\<open>result['pages']\<close>,
    \<^verbatim>\<open>result['data']\<close>; \<open>w\<close> is the state of the network and the remote service.
\<close>

record ('w, 'e, 'r) connection =
  epoch_seconds :: "datetime \<Rightarrow> 'e + int"
  post :: "'w \<Rightarrow> string \<Rightarrow> post_data \<Rightarrow> ('e + int \<times> 'r data) \<times> 'w"

definition MAX_TRADE_QUERY_COUNT :: string where
  "MAX_TRADE_QUERY_COUNT = ''1000''"

definition get_trades ::
  "('w, 'e, 'r) connection \<Rightarrow> 'w \<Rightarrow> datetime \<Rightarrow> datetime \<Rightarrow> string option \<Rightarrow> string option
     \<Rightarrow> ('e exn + int \<times> 'r data) \<times> 'w" where
  "get_trades conn w start end' symbol type' =
     (case epoch_seconds conn start of
        Inl e \<Rightarrow> (Inl (Raised e), w)
      | Inr ts \<Rightarrow>
     (case epoch_seconds conn end' of
        Inl e \<Rightarrow> (Inl (Raised e), w)
      | Inr te \<Rightarrow>
     (let post_data =
            [(''start'', PInt (ts * 1000)),
             (''end'', PInt (te * 1000)),
             (''rows'', PStr MAX_TRADE_QUERY_COUNT),
             (''direction'', PStr (case type' of None \<Rightarrow> '''' | Some t \<Rightarrow> t)),
             (''baseAsset'', PStr ''''),
             (''quoteAsset'', PStr ''''),
             (''symbol'', PStr (case symbol of None \<Rightarrow> '''' | Some s \<Rightarrow> s))]
      in case post conn w ''https://www.binance.com/exchange/private/userTrades'' post_data of
           (Inl e, w') \<Rightarrow> (Inl (Raised e), w')
         | (Inr r, w') \<Rightarrow> (Inr r, w'))))"

text \<open>
  \<^verbatim>\<open>trades.extend(result)\<close>; \<open>None\<close> is the \<^verbatim>\<open>TypeError\<close> raised on a value that cannot
  be iterated.
\<close>

definition extend_list :: "'r list \<Rightarrow> 'r data \<Rightarrow> 'r list option" where
  "extend_list trades result =
     (case result of Sequence xs \<Rightarrow> Some (trades @ xs) | Scalar \<Rightarrow> None)"

text \<open>
  One \<^verbatim>\<open>_get_trades\<close> call as an observer sees it: the two datetimes passed and what the
  call gave (the exception, or the pair it returned).
\<close>

record ('e, 'r) call =
  call_start :: datetime
  call_end :: datetime
  call_result :: "'e exn + int \<times> 'r data"

text \<open>
  The \<^verbatim>\<open>while end_interval < end\<close> loop of \<^verbatim>\<open>trades\<close>. It gives the exception that left it,
  or the values of \<^verbatim>\<open>start_interval\<close> and \<^verbatim>\<open>trades\<close> at its exit, together with the calls
  it made, in order, and the state of the service after them.
\<close>

function trades_loop ::
  "('w, 'e, 'r) connection \<Rightarrow> string option \<Rightarrow> string option \<Rightarrow> datetime \<Rightarrow>
     'w \<Rightarrow> datetime \<Rightarrow> datetime \<Rightarrow> 'r list
     \<Rightarrow> ('e exn + datetime \<times> 'r list) \<times> ('e, 'r) call list \<times> 'w" where
  "trades_loop conn symbol type' end' w start_interval end_interval trades =
     (if dt_less end_interval end' then
        (case get_trades conn w start_interval end_interval symbol type' of (r, w') \<Rightarrow>
           (let c = \<lparr>call_start = start_interval, call_end = end_interval, call_result = r\<rparr> in
            case r of
              Inl e \<Rightarrow> (Inl e, [c], w')
            | Inr (_, result) \<Rightarrow>
           (case extend_list trades result of
              None \<Rightarrow> (Inl TypeError, [c], w')
            | Some trades' \<Rightarrow>
           (case add_days end_interval 28 of
              None \<Rightarrow> (Inl OverflowError, [c], w')
            | Some end_interval' \<Rightarrow>
           (case trades_loop conn symbol type' end' w' end_interval end_interval' trades' of
              (res, calls, w'') \<Rightarrow> (res, c # calls, w''))))))
      else (Inr (start_interval, trades), [], w))"
  by pat_completeness auto
termination
proof (relation "measure (\<lambda>(conn, symbol, type', end', w, start_interval, end_interval, trades).
                   nat (ordinal end' + 1 - ordinal end_interval))", goal_cases)
  case 1
  show ?case by simp
next
  case (2 conn symbol type' end' w start_interval end_interval trades x1 w' c r p result trades' end_interval')
  then show ?case
    by (auto simp: dt_less_def add_days_def split: if_splits)
qed

declare trades_loop.simps [simp del]

text \<open>
  \<^verbatim>\<open>trades\<close>: what it returns or raises, the \<^verbatim>\<open>_get_trades\<close> calls it made, in order, and the
  state of the service afterwards. The keyword arguments are \<open>symbol\<close> and \<open>type'\<close>.
\<close>

definition trades ::
  "('w, 'e, 'r) connection \<Rightarrow> 'w \<Rightarrow> datetime \<Rightarrow> datetime \<Rightarrow> string option \<Rightarrow> string option
     \<Rightarrow> ('e exn + 'r list) \<times> ('e, 'r) call list \<times> 'w" where
  "trades conn w start end' symbol type' =
     (let start_interval = replace_midnight start in
      case add_days start_interval 28 of
        None \<Rightarrow> (Inl OverflowError, [], w)
      | Some end_interval \<Rightarrow>
     (case trades_loop conn symbol type' end' w start_interval end_interval [] of
        (Inl e, calls, w') \<Rightarrow> (Inl e, calls, w')
      | (Inr (start_interval', trades), calls, w') \<Rightarrow>
     (case get_trades conn w' start_interval' end' symbol type' of (r, w'') \<Rightarrow>
        (let c = \<lparr>call_start = start_interval', call_end = end', call_result = r\<rparr> in
         case r of
           Inl e \<Rightarrow> (Inl e, calls @ [c], w'')
         | Inr (_, result) \<Rightarrow>
        (case extend_list trades result of
           None \<Rightarrow> (Inl TypeError, calls @ [c], w'')
         | Some trades' \<Rightarrow> (Inr trades', calls @ [c], w''))))))"

section \<open>Deposits and withdrawals\<close>







section \<open>The run modes\<close>






section \<open>Observing a run\<close>

text \<open>The windows queried, the records a call answered with, and whether it answered with any.\<close>

definition windows :: "('e, 'r) call list \<Rightarrow> (datetime \<times> datetime) list" where
  "windows calls = map (\<lambda>c. (call_start c, call_end c)) calls"

definition call_items :: "('e, 'r) call \<Rightarrow> 'r list" where
  "call_items c = (case call_result c of Inr (_, Sequence xs) \<Rightarrow> xs | _ \<Rightarrow> [])"

definition call_ok :: "('e, 'r) call \<Rightarrow> bool" where
  "call_ok c = (case call_result c of Inr (_, Sequence xs) \<Rightarrow> True | _ \<Rightarrow> False)"

text \<open>
  The calls of the loop form a chain: each starts where the one before ended, spans 28 days
  and ends before the overall end.
\<close>

fun chained :: "datetime \<Rightarrow> datetime \<Rightarrow> ('e, 'r) call list \<Rightarrow> bool" where
  "chained s e [] = True"
| "chained s e (c # cs) =
     (call_start c = s \<and> add_days s 28 = Some (call_end c) \<and> dt_less (call_end c) e
      \<and> chained (call_end c) e cs)"

definition chain_last :: "datetime \<Rightarrow> ('e, 'r) call list \<Rightarrow> datetime" where
  "chain_last s cs = (if cs = [] then s else call_end (last cs))"

text \<open>
  Weaker forms that also fit the trailing call: \<open>full_window\<close> for one call of the loop, and
  \<open>linked\<close> for calls each starting where the one before ended.
\<close>

definition full_window :: "datetime \<Rightarrow> ('e, 'r) call \<Rightarrow> bool" where
  "full_window e c \<longleftrightarrow> add_days (call_start c) 28 = Some (call_end c) \<and> dt_less (call_end c) e"

fun linked :: "datetime \<Rightarrow> ('e, 'r) call list \<Rightarrow> bool" where
  "linked s [] = True"
| "linked s (c # cs) = (call_start c = s \<and> linked (call_end c) cs)"

section \<open>Stand-ins for the service\<close>

text \<open>
  \<^verbatim>\<open>int(d.timestamp())\<close> as CPython computes it for a naive datetime on a 64-bit POSIX
  platform whose local time zone is UTC. The timestamp is the whole seconds since 1970-01-01
  plus \<^verbatim>\<open>microsecond / 1e6\<close>, in double precision: the quotient and the sum are each rounded
  to the nearest double (53 significant bits, ties to even), and \<^verbatim>\<open>int\<close> truncates toward
  zero. On the first day of year 1 the conversion looks a day back, into year 0, and raises
  \<^verbatim>\<open>ValueError\<close>.
\<close>

function bit_length :: "nat \<Rightarrow> nat" where
  "bit_length n = (if n = 0 then 0 else Suc (bit_length (n div 2)))"
  by pat_completeness auto
termination
  by (relation "measure id") auto

declare bit_length.simps [simp del]

text \<open>The integer nearest to \<open>a / b\<close>, ties to even.\<close>

definition round_half_even :: "nat \<Rightarrow> nat \<Rightarrow> nat" where
  "round_half_even a b =
     (let q = a div b; r = a mod b
      in if 2 * r < b then q else if b < 2 * r then q + 1 else if even q then q else q + 1)"

text \<open>\<open>a / 2 ^ k\<close> rounded to a double and then truncated to an integer.\<close>

definition double_trunc :: "nat \<Rightarrow> nat \<Rightarrow> nat" where
  "double_trunc a k =
     (let b = bit_length a
      in if b \<le> 53 then a div 2 ^ k
         else (round_half_even a (2 ^ (b - 53)) * 2 ^ (b - 53)) div 2 ^ k)"

text \<open>
  \<^verbatim>\<open>int(s + us / 1e6)\<close> for whole seconds \<open>s\<close> and \<open>0 \<le> us < 1000000\<close>: the double \<open>q / 2 ^ k\<close>
  nearest to \<open>us / 1000000\<close> has its 53 bits in \<open>q\<close>, and the sum is \<open>(s * 2 ^ k + q) / 2 ^ k\<close>.
\<close>

definition int_of_timestamp :: "int \<Rightarrow> int \<Rightarrow> int" where
  "int_of_timestamp s us =
     (if us = 0 then s
      else
        let k = 126 - bit_length ((nat us * 2 ^ 73) div 1000000);
            q = round_half_even (nat us * 2 ^ k) 1000000;
            a = s * 2 ^ k + int q
        in if 0 \<le> a then int (double_trunc (nat a) k) else - int (double_trunc (nat (- a)) k))"

definition utc_seconds :: "datetime \<Rightarrow> string + int" where
  "utc_seconds d =
     (if ordinal d \<le> 1 then Inl ''year 0 is out of range''
      else Inr (int_of_timestamp
                  ((ordinal d - 719163) * 86400 + hour d * 3600 + minute d * 60 + second d)
                  (microsecond d)))"

text \<open>
  Connections for the evaluated instances: the process above, and a service that answers the
  \<open>n\<close>-th request (counted from 0 in its state) with the one record \<open>n\<close>; \<open>failing_conn k\<close>
  raises on request \<open>k\<close> instead.
\<close>

definition counting_conn :: "(nat, string, nat) connection" where
  "counting_conn =
     \<lparr>epoch_seconds = utc_seconds,
      post = (\<lambda>w url form. (Inr (1, Sequence [w]), Suc w))\<rparr>"

definition failing_conn :: "nat \<Rightarrow> (nat, string, nat) connection" where
  "failing_conn k =
     \<lparr>epoch_seconds = utc_seconds,
      post = (\<lambda>w url form. if w = k then (Inl ''timeout'', Suc w)
                             else (Inr (1, Sequence [w]), Suc w))\<rparr>"



section \<open>Dates: order and arithmetic\<close>

text \<open>
  On valid datetimes the lexicographic order is the order of the microsecond counts, midnight
  is at most a day back, and adding days moves the count by whole days.
\<close>

lemma to_us_replace_midnight: "to_us (replace_midnight d) = ordinal d * day_us"
  by (simp add: to_us_def replace_midnight_def day_us_def)

lemma valid_replace_midnight: "valid_datetime d \<Longrightarrow> valid_datetime (replace_midnight d)"
  by (simp add: valid_datetime_def replace_midnight_def)

lemma replace_midnight_fields:
  "replace_midnight d = \<lparr>ordinal = ordinal d, hour = 0, minute = 0, second = 0, microsecond = 0\<rparr>"
  by (simp add: replace_midnight_def)

lemma to_us_midnight_le:
  assumes "valid_datetime d"
  shows "to_us (replace_midnight d) \<le> to_us d \<and> to_us d < to_us (replace_midnight d) + day_us"
  using assms by (simp add: valid_datetime_def to_us_def replace_midnight_def day_us_def)

lemma to_us_add_days: "add_days d n = Some d' \<Longrightarrow> to_us d' = to_us d + n * day_us"
  by (auto simp: add_days_def to_us_def day_us_def split: if_splits)

lemma valid_add_days: "add_days d n = Some d' \<Longrightarrow> valid_datetime d \<Longrightarrow> valid_datetime d'"
  by (auto simp: add_days_def valid_datetime_def split: if_splits)

lemma dt_less_add_days: "add_days d n = Some d' \<Longrightarrow> 0 < n \<Longrightarrow> dt_less d d'"
  by (auto simp: add_days_def dt_less_def split: if_splits)

lemma dt_less_iff_to_us:
  assumes "valid_datetime a" "valid_datetime b"
  shows "dt_less a b \<longleftrightarrow> to_us a < to_us b"
  using assms unfolding valid_datetime_def dt_less_def to_us_def
  by auto

lemma midnight_not_after: "valid_datetime d \<Longrightarrow> \<not> dt_less d (replace_midnight d)"
  using to_us_midnight_le [of d] by (simp add: dt_less_iff_to_us valid_replace_midnight)

lemma dt_less_midnight_iff:
  assumes "valid_datetime e"
  shows "dt_less e (replace_midnight d) \<longleftrightarrow> ordinal e < ordinal d"
  using assms by (auto simp: dt_less_def replace_midnight_def valid_datetime_def)

lemma add_days_midnight:
  assumes "valid_datetime start" "ordinal start + 28 \<le> MAXORDINAL"
  shows "add_days (replace_midnight start) 28 =
           Some ((replace_midnight start)\<lparr>ordinal := ordinal start + 28\<rparr>)"
  using assms by (simp add: add_days_def replace_midnight_def valid_datetime_def)

lemma first_end:
  assumes "valid_datetime start" "ordinal start + 28 \<le> MAXORDINAL"
  shows "\<exists>ei. add_days (replace_midnight start) 28 = Some ei \<and> valid_datetime ei \<and>
           to_us ei = to_us (replace_midnight start) + 28 * day_us \<and>
           ei = \<lparr>ordinal = ordinal start + 28, hour = 0, minute = 0, second = 0, microsecond = 0\<rparr>"
proof -
  let ?ei = "(replace_midnight start)\<lparr>ordinal := ordinal start + 28\<rparr>"
  have a: "add_days (replace_midnight start) 28 = Some ?ei"
    using assms by (rule add_days_midnight)
  have "valid_datetime ?ei"
    using valid_add_days [OF a] assms(1) by (simp add: valid_replace_midnight)
  moreover have "to_us ?ei = to_us (replace_midnight start) + 28 * day_us"
    using to_us_add_days [OF a] by simp
  moreover have "?ei = \<lparr>ordinal = ordinal start + 28, hour = 0, minute = 0, second = 0, microsecond = 0\<rparr>"
    by (simp add: replace_midnight_def)
  ultimately show ?thesis using a by blast
qed

lemma ceil_div_step:
  fixes x P :: int
  assumes "0 < x" "0 < P"
  shows "(x + P - 1) div P = 1 + (if P < x then (x - 1) div P else 0)"
proof -
  have "(x + P - 1) div P = ((x - 1) + P) div P"
    by (simp add: algebra_simps)
  also have "\<dots> = (x - 1) div P + 1"
    using assms div_add_self2 [of P "x - 1"] by simp
  finally have eq: "(x + P - 1) div P = (x - 1) div P + 1" .
  show ?thesis
  proof (cases "P < x")
    case True
    then show ?thesis using eq by simp
  next
    case False
    then have "(x - 1) div P = 0"
      using assms by (intro div_pos_pos_trivial) auto
    then show ?thesis using eq False by simp
  qed
qed

lemma floor_div_remainder:
  fixes r P :: int
  assumes "0 < r" "r < P"
  shows "(int N * P + r - 1) div P = int N"
proof -
  have "(int N * P + r - 1) div P = ((r - 1) + int N * P) div P"
    by (simp add: algebra_simps)
  also have "\<dots> = int N + (r - 1) div P"
    using assms by (subst div_mult_self1) auto
  also have "(r - 1) div P = 0"
    using assms by (intro div_pos_pos_trivial) auto
  finally show ?thesis by simp
qed

section \<open>The windowing loop\<close>

text \<open>
  An induction rule for the loop with one hypothesis, for the iteration that goes on, and
  the invariants proved with it: the shape of the calls, the exit state, the records
  gathered, the exception that left the loop, and the number of iterations.
\<close>

lemma loop_exit:
  "\<not> dt_less ei e \<Longrightarrow> trades_loop c sy ty e w si ei acc = (Inr (si, acc), [], w)"
  by (simp add: trades_loop.simps)

lemma trades_loop_induct:
  assumes "\<And>c sy ty e w si ei acc.
     (\<forall>p xs w1 ei'. dt_less ei e \<longrightarrow> get_trades c w si ei sy ty = (Inr (p, Sequence xs), w1) \<longrightarrow>
        add_days ei 28 = Some ei' \<longrightarrow> P c sy ty e w1 ei ei' (acc @ xs)) \<Longrightarrow> P c sy ty e w si ei acc"
  shows "P c sy ty e w si ei acc"
proof (induction c sy ty e w si ei acc rule: trades_loop.induct)
  case (1 conn symbol type' end' w start_interval end_interval trades)
  show ?case
  proof (rule assms, intro allI impI)
    fix p xs w1 ei'
    assume "dt_less end_interval end'"
      and "get_trades conn w start_interval end_interval symbol type' = (Inr (p, Sequence xs), w1)"
      and "add_days end_interval 28 = Some ei'"
    then show "P conn symbol type' end' w1 end_interval ei' (trades @ xs)"
      using "1.IH" [of "Inr (p, Sequence xs)" w1 _ "(p, Sequence xs)" p "Sequence xs" "trades @ xs" ei']
      by (simp add: extend_list_def)
  qed
qed

lemma get_trades_raises:
  "epoch_seconds conn start = Inl x \<Longrightarrow>
     get_trades conn w start e sy ty = (Inl (Raised x), w)"
  "epoch_seconds conn start = Inr ts \<Longrightarrow> epoch_seconds conn e = Inl x \<Longrightarrow>
     get_trades conn w start e sy ty = (Inl (Raised x), w)"
  by (simp_all add: get_trades_def)


lemma call_items_Sequence:
  "call_items \<lparr>call_start = s, call_end = e, call_result = Inr (p, Sequence xs)\<rparr> = xs"
  by (simp add: call_items_def)

lemma call_ok_Sequence:
  "call_ok \<lparr>call_start = s, call_end = e, call_result = Inr (p, Sequence xs)\<rparr>"
  by (simp add: call_ok_def)

lemma call_ok_iff: "call_ok c \<longleftrightarrow> (\<exists>p xs. call_result c = Inr (p, Sequence xs))"
proof (cases "call_result c")
  case (Inl x)
  then show ?thesis by (simp add: call_ok_def)
next
  case (Inr pd)
  obtain p d where "pd = (p, d)" by (cases pd)
  with Inr show ?thesis by (cases d) (simp_all add: call_ok_def)
qed

lemma loop_Inr_step:
  assumes "dt_less ei e" "trades_loop c sy ty e w si ei acc = (Inr (si', acc'), calls, w')"
  shows "\<exists>p xs w1 ei' calls'.
           get_trades c w si ei sy ty = (Inr (p, Sequence xs), w1) \<and> add_days ei 28 = Some ei' \<and>
           trades_loop c sy ty e w1 ei ei' (acc @ xs) = (Inr (si', acc'), calls', w') \<and>
           calls = \<lparr>call_start = si, call_end = ei, call_result = Inr (p, Sequence xs)\<rparr> # calls'"
  using assms
  by (subst (asm) trades_loop.simps)
     (auto split: if_splits prod.splits sum.splits option.splits data.splits
           simp: Let_def extend_list_def)

lemma loop_first_call:
  assumes "dt_less ei e" "trades_loop c sy ty e w si ei acc = (res, calls, w')"
  shows "calls \<noteq> [] \<and> call_start (hd calls) = si \<and> call_end (hd calls) = ei"
  using assms
  by (subst (asm) trades_loop.simps)
     (auto split: if_splits prod.splits sum.splits option.splits data.splits simp: Let_def)

lemma loop_chained_aux:
  "\<forall>res calls w'. trades_loop c sy ty e w si ei acc = (res, calls, w') \<longrightarrow> add_days si 28 = Some ei \<longrightarrow>
     chained si e calls"
proof (induction c sy ty e w si ei acc rule: trades_loop_induct)
  case (1 c sy ty e w si ei acc)
  show ?case
    using 1
    apply (subst trades_loop.simps)
    apply (auto split: if_splits prod.splits sum.splits option.splits data.splits simp: Let_def extend_list_def)
    done
qed

lemma loop_final_aux:
  "\<forall>si' acc' calls w'. trades_loop c sy ty e w si ei acc = (Inr (si', acc'), calls, w') \<longrightarrow> add_days si 28 = Some ei \<longrightarrow>
     si' = chain_last si calls \<and> (\<exists>ei'. add_days si' 28 = Some ei' \<and> \<not> dt_less ei' e)"
proof (induction c sy ty e w si ei acc rule: trades_loop_induct)
  case (1 c sy ty e w si ei acc)
  show ?case
    using 1
    apply (subst trades_loop.simps)
    apply (auto split: if_splits prod.splits sum.splits option.splits data.splits simp: Let_def chain_last_def extend_list_def)
    done
qed

lemma loop_final_valid_aux:
  "\<forall>si' acc' calls w'. trades_loop c sy ty e w si ei acc = (Inr (si', acc'), calls, w') \<longrightarrow>
     valid_datetime si \<longrightarrow> add_days si 28 = Some ei \<longrightarrow> valid_datetime si'"
proof (induction c sy ty e w si ei acc rule: trades_loop_induct)
  case (1 c sy ty e w si ei acc)
  show ?case
    using 1
    apply (subst trades_loop.simps)
    apply (auto split: if_splits prod.splits sum.splits option.splits data.splits
                simp: Let_def extend_list_def dest: valid_add_days)
    done
qed

lemma loop_result_aux:
  "\<forall>si' acc' calls w'. trades_loop c sy ty e w si ei acc = (Inr (si', acc'), calls, w') \<longrightarrow>
     acc' = acc @ concat (map call_items calls) \<and> list_all call_ok calls"
proof (induction c sy ty e w si ei acc rule: trades_loop_induct)
  case (1 c sy ty e w si ei acc)
  show ?case
    using 1
    apply (subst trades_loop.simps)
    apply (auto split: if_splits prod.splits sum.splits option.splits data.splits simp: Let_def call_items_Sequence call_ok_Sequence extend_list_def)
    done
qed

lemma loop_raise_aux:
  "\<forall>x calls w'. trades_loop c sy ty e w si ei acc = (Inl x, calls, w') \<longrightarrow>
     calls \<noteq> [] \<and> list_all call_ok (butlast calls) \<and> (\<forall>y. call_result (last calls) = Inl y \<longrightarrow> x = y)"
proof (induction c sy ty e w si ei acc rule: trades_loop_induct)
  case (1 c sy ty e w si ei acc)
  show ?case
    using 1
    apply (subst trades_loop.simps)
    apply (auto split: if_splits prod.splits sum.splits option.splits data.splits simp: Let_def call_items_Sequence call_ok_Sequence extend_list_def)
    done
qed


lemma loop_count_aux:
  "\<forall>si' acc' calls w'. trades_loop c sy ty e w si ei acc = (Inr (si', acc'), calls, w') \<longrightarrow>
     valid_datetime ei \<longrightarrow> valid_datetime e \<longrightarrow>
     int (length calls) =
       (if to_us ei < to_us e then (to_us e - to_us ei + 28 * day_us - 1) div (28 * day_us) else 0)"
proof (induction c sy ty e w si ei acc rule: trades_loop_induct)
  case (1 c sy ty e w si ei acc)
  show ?case
  proof (intro allI impI)
    fix si' acc' calls w'
    assume run: "trades_loop c sy ty e w si ei acc = (Inr (si', acc'), calls, w')"
      and v: "valid_datetime ei" "valid_datetime e"
    show "int (length calls) =
       (if to_us ei < to_us e then (to_us e - to_us ei + 28 * day_us - 1) div (28 * day_us) else 0)"
    proof (cases "dt_less ei e")
      case False
      then have "calls = []" using run loop_exit [OF False, of c sy ty w si acc] by simp
      then show ?thesis using False v by (simp add: dt_less_iff_to_us)
    next
      case True
      from loop_Inr_step [OF True run] obtain p xs w1 ei' calls' where
        g: "get_trades c w si ei sy ty = (Inr (p, Sequence xs), w1)" and
        a: "add_days ei 28 = Some ei'" and
        r: "trades_loop c sy ty e w1 ei ei' (acc @ xs) = (Inr (si', acc'), calls', w')" and
        c: "calls = \<lparr>call_start = si, call_end = ei, call_result = Inr (p, Sequence xs)\<rparr> # calls'"
        by blast
      have v': "valid_datetime ei'" using a v(1) by (rule valid_add_days)
      have us: "to_us ei' = to_us ei + 28 * day_us" using to_us_add_days [OF a] by simp
      have ih: "int (length calls') =
         (if to_us ei' < to_us e then (to_us e - to_us ei' + 28 * day_us - 1) div (28 * day_us) else 0)"
        using 1 True g a r v' v(2) by blast
      have pos: "0 < to_us e - to_us ei" using True v by (simp add: dt_less_iff_to_us)
      have P: "(0::int) < 28 * day_us" by (simp add: day_us_def)
      have "int (length calls) = 1 + int (length calls')" using c by simp
      also have "\<dots> = 1 + (if 28 * day_us < to_us e - to_us ei
                          then (to_us e - to_us ei - 1) div (28 * day_us) else 0)"
        using ih us by (simp add: algebra_simps)
      also have "\<dots> = (to_us e - to_us ei + 28 * day_us - 1) div (28 * day_us)"
        using ceil_div_step [OF pos P] by simp
      finally show ?thesis using pos by simp
    qed
  qed
qed

lemmas loop_chained = loop_chained_aux [rule_format]
lemmas loop_final = loop_final_aux [rule_format]
lemmas loop_final_valid = loop_final_valid_aux [rule_format]
lemmas loop_result = loop_result_aux [rule_format]
lemmas loop_raise = loop_raise_aux [rule_format]
lemmas loop_count = loop_count_aux [rule_format]

lemma chained_full: "chained s e cs \<Longrightarrow> list_all (full_window e) cs"
  by (induction cs arbitrary: s) (auto simp: full_window_def)

lemma chained_linked: "chained s e cs \<Longrightarrow> linked s cs"
  by (induction cs arbitrary: s) auto

lemma chained_linked_snoc:
  "chained s e cs \<Longrightarrow> call_start f = chain_last s cs \<Longrightarrow> linked s (cs @ [f])"
  by (induction cs arbitrary: s) (auto simp: chain_last_def)

lemma linked_Suc:
  "linked s log \<Longrightarrow> Suc i < length log \<Longrightarrow> call_start (log ! Suc i) = call_end (log ! i)"
proof (induction log arbitrary: s i)
  case Nil
  then show ?case by simp
next
  case (Cons c cs)
  show ?case
  proof (cases i)
    case 0
    then show ?thesis using Cons.prems by (cases cs) auto
  next
    case (Suc k)
    then show ?thesis using Cons.prems Cons.IH [of "call_end c" k] by simp
  qed
qed

lemma linked_start:
  "linked s log \<Longrightarrow> list_all (full_window e) (butlast log) \<Longrightarrow> j < length log \<Longrightarrow>
     to_us (call_start (log ! j)) = to_us s + int j * (28 * day_us)"
proof (induction log arbitrary: s j)
  case Nil
  then show ?case by simp
next
  case (Cons c cs)
  show ?case
  proof (cases j)
    case 0
    then show ?thesis using Cons.prems by simp
  next
    case (Suc k)
    with Cons.prems have ne: "cs \<noteq> []" and k: "k < length cs" by auto
    with Cons.prems have fw: "full_window e c" and rest: "list_all (full_window e) (butlast cs)"
      by auto
    have "to_us (call_end c) = to_us s + 28 * day_us"
      using fw Cons.prems(1) to_us_add_days [of "call_start c" 28 "call_end c"]
      by (simp add: full_window_def)
    moreover have "to_us (call_start (cs ! k)) = to_us (call_end c) + int k * (28 * day_us)"
      using Cons.IH [OF _ rest k] Cons.prems(1) by simp
    ultimately show ?thesis using Suc by (simp add: algebra_simps)
  qed
qed

section \<open>The whole of \<^verbatim>\<open>trades\<close>\<close>

text \<open>
  A run of \<^verbatim>\<open>trades\<close> raises \<^verbatim>\<open>OverflowError\<close> before the loop, or raises inside the loop, or
  leaves the loop and makes the trailing call.
\<close>

lemma trades_overflow:
  "add_days (replace_midnight start) 28 = None \<Longrightarrow>
     trades conn w start e sy ty = (Inl OverflowError, [], w)"
  by (simp add: trades_def)

lemma trades_loop_raised:
  assumes "add_days (replace_midnight start) 28 = Some ei"
    and "trades_loop conn sy ty e w (replace_midnight start) ei [] = (Inl x, calls, w1)"
  shows "trades conn w start e sy ty = (Inl x, calls, w1)"
  using assms by (simp add: trades_def)

lemma trades_final:
  assumes "add_days (replace_midnight start) 28 = Some ei"
    and "trades_loop conn sy ty e w (replace_midnight start) ei [] = (Inr (si, acc), calls, w1)"
    and "get_trades conn w1 si e sy ty = (r, w2)"
  shows "trades conn w start e sy ty =
           ((case r of
               Inl x \<Rightarrow> Inl x
             | Inr (p, d) \<Rightarrow> (case extend_list acc d of None \<Rightarrow> Inl TypeError | Some ts \<Rightarrow> Inr ts)),
            calls @ [\<lparr>call_start = si, call_end = e, call_result = r\<rparr>], w2)"
  using assms by (auto simp: trades_def Let_def split: sum.splits option.splits prod.splits)

lemma trades_cases:
  assumes "trades conn w start e sy ty = (res, log, w')"
  obtains
    (overflow) "add_days (replace_midnight start) 28 = None" "res = Inl OverflowError" "log = []"
  | (raised) ei x where "add_days (replace_midnight start) 28 = Some ei"
      "trades_loop conn sy ty e w (replace_midnight start) ei [] = (Inl x, log, w')" "res = Inl x"
  | (final) ei si acc calls w1 r where "add_days (replace_midnight start) 28 = Some ei"
      "trades_loop conn sy ty e w (replace_midnight start) ei [] = (Inr (si, acc), calls, w1)"
      "get_trades conn w1 si e sy ty = (r, w')"
      "log = calls @ [\<lparr>call_start = si, call_end = e, call_result = r\<rparr>]"
      "res = (case r of
               Inl x \<Rightarrow> Inl x
             | Inr (p, d) \<Rightarrow> (case extend_list acc d of None \<Rightarrow> Inl TypeError | Some ts \<Rightarrow> Inr ts))"
proof (cases "add_days (replace_midnight start) 28")
  case None
  then show ?thesis using assms overflow by (simp add: trades_overflow)
next
  case (Some ei)
  obtain lres calls w1 where l: "trades_loop conn sy ty e w (replace_midnight start) ei [] = (lres, calls, w1)"
    by (cases "trades_loop conn sy ty e w (replace_midnight start) ei []") auto
  show ?thesis
  proof (cases lres)
    case (Inl x)
    with l have l': "trades_loop conn sy ty e w (replace_midnight start) ei [] = (Inl x, calls, w1)"
      by simp
    from trades_loop_raised [OF Some l'] assms
    have "res = Inl x" "log = calls" "w' = w1" by simp_all
    with l' show ?thesis using raised [OF Some] by simp
  next
    case (Inr sa)
    obtain si acc where sa: "sa = (si, acc)" by (cases sa) auto
    obtain r w2 where g: "get_trades conn w1 si e sy ty = (r, w2)"
      by (cases "get_trades conn w1 si e sy ty") auto
    from l Inr sa
    have l': "trades_loop conn sy ty e w (replace_midnight start) ei [] = (Inr (si, acc), calls, w1)"
      by simp
    from trades_final [OF Some l' g] assms
    have "res = (case r of
               Inl x \<Rightarrow> Inl x
             | Inr (p, d) \<Rightarrow> (case extend_list acc d of None \<Rightarrow> Inl TypeError | Some ts \<Rightarrow> Inr ts))"
      "log = calls @ [\<lparr>call_start = si, call_end = e, call_result = r\<rparr>]" "w' = w2"
      by simp_all
    with g show ?thesis using final [OF Some l'] by simp
  qed
qed

lemma trades_one_call:
  assumes "add_days (replace_midnight start) 28 = Some ei" "\<not> dt_less ei e"
  shows "trades conn w start e sy ty =
           (case get_trades conn w (replace_midnight start) e sy ty of (r, w1) \<Rightarrow>
              ((case r of
                  Inl x \<Rightarrow> Inl x
                | Inr (p, d) \<Rightarrow>
                    (case extend_list [] d of None \<Rightarrow> Inl TypeError | Some ts \<Rightarrow> Inr ts)),
               [\<lparr>call_start = replace_midnight start, call_end = e, call_result = r\<rparr>], w1))"
proof -
  obtain r w1 where g: "get_trades conn w (replace_midnight start) e sy ty = (r, w1)"
    by (cases "get_trades conn w (replace_midnight start) e sy ty") auto
  from trades_final [OF assms(1) loop_exit [OF assms(2)] g] show ?thesis
    using g by simp
qed

lemma windows_one_call:
  assumes "add_days (replace_midnight start) 28 = Some ei" "\<not> dt_less ei e"
  shows "windows (fst (snd (trades conn w start e sy ty))) = [(replace_midnight start, e)]"
  by (simp add: trades_one_call [OF assms] windows_def split: prod.splits)

lemma trades_log_shape:
  assumes "trades conn w start e sy ty = (res, log, w')"
  shows "linked (replace_midnight start) log \<and> list_all (full_window e) (butlast log) \<and>
         (\<forall>ts. res = Inr ts \<longrightarrow> log \<noteq> [] \<and> call_end (last log) = e)"
  using assms
proof (cases rule: trades_cases)
  case overflow
  then show ?thesis by simp
next
  case (raised ei x)
  have "chained (replace_midnight start) e log" by (rule loop_chained [OF raised(2,1)])
  then have "linked (replace_midnight start) log" "list_all (full_window e) log"
    by (rule chained_linked, rule chained_full)
  then show ?thesis using raised(3) by (auto simp: list_all_iff dest: in_set_butlastD)
next
  case (final ei si acc calls w1 r)
  have ch: "chained (replace_midnight start) e calls" by (rule loop_chained [OF final(2,1)])
  have si: "si = chain_last (replace_midnight start) calls" using loop_final [OF final(2,1)] by simp
  have "linked (replace_midnight start) log"
    using chained_linked_snoc [OF ch, of "\<lparr>call_start = si, call_end = e, call_result = r\<rparr>"] si final(4)
    by simp
  moreover have "list_all (full_window e) (butlast log)"
    using chained_full [OF ch] final(4) by simp
  ultimately show ?thesis using final(4) by simp
qed

lemma trades_last_call:
  assumes "trades conn w start e sy ty = (res, log, w')" "log \<noteq> []"
  shows "(call_end (last log) = e \<and>
          (\<exists>ei'. add_days (call_start (last log)) 28 = Some ei' \<and> \<not> dt_less ei' e) \<and>
          (valid_datetime start \<longrightarrow> valid_datetime (call_start (last log)))) \<or>
         ((\<exists>x. res = Inl x) \<and> full_window e (last log))"
  using assms(1)
proof (cases rule: trades_cases)
  case overflow
  then show ?thesis using assms(2) by simp
next
  case (raised ei x)
  have "chained (replace_midnight start) e log" by (rule loop_chained [OF raised(2,1)])
  then have "list_all (full_window e) log" by (rule chained_full)
  then have "full_window e (last log)" using assms(2) by (simp add: list_all_iff)
  then show ?thesis using raised(3) by simp
next
  case (final ei si acc calls w1 r)
  from loop_final [OF final(2,1)]
  have "\<exists>ei'. add_days si 28 = Some ei' \<and> \<not> dt_less ei' e" by blast
  moreover have "valid_datetime si" if "valid_datetime start"
    using loop_final_valid [OF final(2) valid_replace_midnight [OF that] final(1)] .
  ultimately show ?thesis using final(4) by simp
qed


section \<open>Claims\<close>

text \<open>
  C1 (amended). For every start and end, with start's calendar day no later than 9999-12-03,
  such that end is at most 28 days after the beginning (00:00:00) of start's calendar day,
  \<^verbatim>\<open>trades\<close> makes exactly one \<^verbatim>\<open>_get_trades\<close> call, for the interval from the beginning of
  start's day to end, which covers [start, end]. As stated, with the 28 days counted from
  start itself, the claim fails when start is not at midnight, and it fails in the last
  28 days of year 9999, where no call is made.
\<close>

theorem trades_single_window:
  assumes "valid_datetime start" "valid_datetime end'"
    and "ordinal start + 28 \<le> MAXORDINAL"
    and "to_us end' - to_us (replace_midnight start) \<le> 28 * day_us"
  shows "windows (fst (snd (trades conn w start end' symbol type'))) =
           [(replace_midnight start, end')] \<and>
         \<not> dt_less start (replace_midnight start)"
proof -
  from first_end [OF assms(1,3)] obtain ei where
    a: "add_days (replace_midnight start) 28 = Some ei" and v: "valid_datetime ei" and
    us: "to_us ei = to_us (replace_midnight start) + 28 * day_us"
    by blast
  have "\<not> dt_less ei end'"
    using assms(4) us by (simp add: dt_less_iff_to_us [OF v assms(2)])
  from windows_one_call [OF a this] midnight_not_after [OF assms(1)] show ?thesis
    by simp
qed

theorem trades_single_window_counterexample:
  "to_us (mk_datetime 2018 2 2 6 0 0) - to_us (mk_datetime 2018 1 5 12 0 0) \<le> 28 * day_us \<and>
   length (fst (snd (trades counting_conn 0 (mk_datetime 2018 1 5 12 0 0)
     (mk_datetime 2018 2 2 6 0 0) None None))) = 2 \<and>
   to_us (mk_datetime 9999 12 26 0 0 0) - to_us (mk_datetime 9999 12 25 0 0 0) \<le> 28 * day_us \<and>
   fst (snd (trades counting_conn 0 (mk_datetime 9999 12 25 0 0 0)
     (mk_datetime 9999 12 26 0 0 0) None None)) = []"
  by code_simp

theorem trades_single_window_witness:
  "valid_datetime (mk_datetime 2018 1 5 12 0 0) \<and> valid_datetime (mk_datetime 2018 2 1 6 0 0) \<and>
   ordinal (mk_datetime 2018 1 5 12 0 0) + 28 \<le> MAXORDINAL \<and>
   to_us (mk_datetime 2018 2 1 6 0 0) - to_us (replace_midnight (mk_datetime 2018 1 5 12 0 0))
     \<le> 28 * day_us \<and>
   windows (fst (snd (trades counting_conn 0 (mk_datetime 2018 1 5 12 0 0)
     (mk_datetime 2018 2 1 6 0 0) None None))) =
     [(mk_datetime 2018 1 5 0 0 0, mk_datetime 2018 2 1 6 0 0)]"
proof -
  have h1: "valid_datetime (mk_datetime 2018 1 5 12 0 0)" by code_simp
  have h2: "valid_datetime (mk_datetime 2018 2 1 6 0 0)" by code_simp
  have h3: "ordinal (mk_datetime 2018 1 5 12 0 0) + 28 \<le> MAXORDINAL" by code_simp
  have h4: "to_us (mk_datetime 2018 2 1 6 0 0) - to_us (replace_midnight (mk_datetime 2018 1 5 12 0 0))
     \<le> 28 * day_us" by code_simp
  have m: "replace_midnight (mk_datetime 2018 1 5 12 0 0) = mk_datetime 2018 1 5 0 0 0"
    by code_simp
  from trades_single_window [OF h1 h2 h3 h4, of counting_conn 0 None None] show ?thesis
    using h1 h2 h3 h4 m by simp
qed

text \<open>
  C2 (amended). For every start and end such that the time from the beginning (00:00:00) of
  start's calendar day to end is N full 28-day periods plus a non-empty remainder shorter
  than 28 days, every run of \<^verbatim>\<open>trades\<close> that returns makes exactly N+1 \<^verbatim>\<open>_get_trades\<close> calls;
  the starts and the ends of successive calls are strictly increasing, and the last call's
  end is the original end itself. As stated, with the periods counted from start, the claim
  fails when start is not at midnight; and a run in which a call raises stops short of N+1
  calls.
\<close>

theorem trades_window_count:
  assumes "valid_datetime start" "valid_datetime end'"
    and "to_us end' - to_us (replace_midnight start) = int N * (28 * day_us) + r"
    and "0 < r" "r < 28 * day_us"
    and run: "trades conn w start end' symbol type' = (Inr ts, log, w')"
  shows "length log = N + 1 \<and>
         (\<forall>i. Suc i < length log \<longrightarrow>
            dt_less (call_start (log ! i)) (call_start (log ! Suc i)) \<and>
            dt_less (call_end (log ! i)) (call_end (log ! Suc i))) \<and>
         call_end (last log) = end'"
proof -
  from trades_log_shape [OF run]
  have lk: "linked (replace_midnight start) log"
    and fw: "list_all (full_window end') (butlast log)"
    and fin: "log \<noteq> []" "call_end (last log) = end'"
    by blast+
  have len: "length log = N + 1"
    using run
  proof (cases rule: trades_cases)
    case overflow
    then show ?thesis by simp
  next
    case (raised ei x)
    then show ?thesis by simp
  next
    case (final ei si acc calls w1 r')
    have vei: "valid_datetime ei"
      using valid_add_days [OF final(1)] assms(1) by (simp add: valid_replace_midnight)
    have us: "to_us ei = to_us (replace_midnight start) + 28 * day_us"
      using to_us_add_days [OF final(1)] by simp
    have cnt: "int (length calls) =
       (if to_us ei < to_us end'
        then (to_us end' - to_us ei + 28 * day_us - 1) div (28 * day_us) else 0)"
      by (rule loop_count [OF final(2) vei assms(2)])
    have "int (length calls) = int N"
    proof (cases N)
      case 0
      then show ?thesis using cnt us assms(3,5) by simp
    next
      case (Suc k)
      have "28 * day_us \<le> int N * (28 * day_us)"
        using Suc by (simp add: day_us_def)
      then have lt: "to_us ei < to_us end'"
        using us assms(3,4) by simp
      have "to_us end' - to_us ei + 28 * day_us - 1 = int N * (28 * day_us) + r - 1"
        using us assms(3) by simp
      then have "(to_us end' - to_us ei + 28 * day_us - 1) div (28 * day_us) = int N"
        using floor_div_remainder [OF assms(4,5), of N] by (simp only:)
      then show ?thesis
        using cnt lt by simp
    qed
    then show ?thesis using final(4) by simp
  qed
  have full: "add_days (call_start (log ! i)) 28 = Some (call_end (log ! i)) \<and>
              dt_less (call_end (log ! i)) end'" if "Suc i < length log" for i
  proof -
    from that have "i < length (butlast log)" by simp
    then have "full_window end' (butlast log ! i)" using fw by (simp add: list_all_length)
    then show ?thesis using \<open>i < length (butlast log)\<close> by (simp add: nth_butlast full_window_def)
  qed
  have inc: "dt_less (call_start (log ! i)) (call_start (log ! Suc i)) \<and>
             dt_less (call_end (log ! i)) (call_end (log ! Suc i))" if i: "Suc i < length log" for i
  proof -
    have nxt: "call_start (log ! Suc i) = call_end (log ! i)"
      by (rule linked_Suc [OF lk i])
    have s: "dt_less (call_start (log ! i)) (call_start (log ! Suc i))"
      using full [OF i] nxt dt_less_add_days [of "call_start (log ! i)" 28 "call_end (log ! i)"]
      by simp
    have e: "dt_less (call_end (log ! i)) (call_end (log ! Suc i))"
    proof (cases "Suc (Suc i) < length log")
      case True
      then show ?thesis
        using full [OF True] nxt
          dt_less_add_days [of "call_start (log ! Suc i)" 28 "call_end (log ! Suc i)"]
        by simp
    next
      case False
      with i have "Suc i = length log - 1" by simp
      then have "log ! Suc i = last log" using fin(1) by (simp add: last_conv_nth)
      then show ?thesis using full [OF i] fin(2) by simp
    qed
    from s e show ?thesis ..
  qed
  show ?thesis using len inc fin(2) by blast
qed

theorem trades_window_count_counterexample:
  "to_us (mk_datetime 2018 3 2 6 0 0) - to_us (mk_datetime 2018 1 5 12 0 0) =
     int 1 * (28 * day_us) + 2397600000000 \<and>
   (0::int) < 2397600000000 \<and> 2397600000000 < 28 * day_us \<and>
   fst (trades counting_conn 0 (mk_datetime 2018 1 5 12 0 0) (mk_datetime 2018 3 2 6 0 0)
     None None) = Inr [0, 1, 2] \<and>
   length (fst (snd (trades counting_conn 0 (mk_datetime 2018 1 5 12 0 0)
     (mk_datetime 2018 3 2 6 0 0) None None))) = 3 \<and>
   to_us (mk_datetime 2018 3 10 0 0 0) - to_us (mk_datetime 2018 1 5 0 0 0) =
     int 2 * (28 * day_us) + 8 * day_us \<and>
   0 < 8 * day_us \<and> 8 * day_us < 28 * day_us \<and>
   length (fst (snd (trades (failing_conn 0) 0 (mk_datetime 2018 1 5 0 0 0)
     (mk_datetime 2018 3 10 0 0 0) None None))) = 1"
  by code_simp

theorem trades_window_count_witness:
  "valid_datetime (mk_datetime 2018 1 5 0 30 0) \<and> valid_datetime (mk_datetime 2018 3 10 0 0 0) \<and>
   to_us (mk_datetime 2018 3 10 0 0 0) - to_us (replace_midnight (mk_datetime 2018 1 5 0 30 0)) =
     int 2 * (28 * day_us) + 8 * day_us \<and>
   0 < 8 * day_us \<and> 8 * day_us < 28 * day_us \<and>
   fst (trades counting_conn 0 (mk_datetime 2018 1 5 0 30 0) (mk_datetime 2018 3 10 0 0 0)
     None None) = Inr [0, 1, 2] \<and>
   length (fst (snd (trades counting_conn 0 (mk_datetime 2018 1 5 0 30 0)
     (mk_datetime 2018 3 10 0 0 0) None None))) = 2 + 1 \<and>
   call_end (last (fst (snd (trades counting_conn 0 (mk_datetime 2018 1 5 0 30 0)
     (mk_datetime 2018 3 10 0 0 0) None None)))) = mk_datetime 2018 3 10 0 0 0"
proof -
  let ?run = "trades counting_conn 0 (mk_datetime 2018 1 5 0 30 0)
                (mk_datetime 2018 3 10 0 0 0) None None"
  have h1: "valid_datetime (mk_datetime 2018 1 5 0 30 0)" by code_simp
  have h2: "valid_datetime (mk_datetime 2018 3 10 0 0 0)" by code_simp
  have h3: "to_us (mk_datetime 2018 3 10 0 0 0) - to_us (replace_midnight (mk_datetime 2018 1 5 0 30 0)) =
     int 2 * (28 * day_us) + 8 * day_us" by code_simp
  have h4: "0 < 8 * day_us" by code_simp
  have h5: "8 * day_us < 28 * day_us" by code_simp
  have r: "fst ?run = Inr [0, 1, 2]" by code_simp
  then obtain log w' where run: "?run = (Inr [0, 1, 2], log, w')"
    by (cases ?run) auto
  from trades_window_count [OF h1 h2 h3 h4 h5 run] show ?thesis
    using h1 h2 h3 h4 h5 run by simp
qed

text \<open>
  C3 (amended). For every start whose calendar day is no later than 9999-12-03 and every end,
  \<^verbatim>\<open>trades\<close> makes at least one \<^verbatim>\<open>_get_trades\<close> call: whenever the windowing loop is left without
  an exception, one more call follows it, for the window start the loop ended with to the
  overall end; and when start equals end exactly one call is made. In the last 28 days of
  year 9999 the first window end cannot be computed and no call is made at all.
\<close>

theorem trades_issues_a_call:
  assumes "valid_datetime start" "ordinal start + 28 \<le> MAXORDINAL"
    and run: "trades conn w start end' symbol type' = (res, log, w')"
  shows "log \<noteq> [] \<and>
         (\<forall>ei si acc calls w1.
            add_days (replace_midnight start) 28 = Some ei \<and>
            trades_loop conn symbol type' end' w (replace_midnight start) ei [] =
              (Inr (si, acc), calls, w1) \<longrightarrow>
            log = calls @ [\<lparr>call_start = si, call_end = end',
                            call_result = fst (get_trades conn w1 si end' symbol type')\<rparr>]) \<and>
         (start = end' \<longrightarrow> windows log = [(replace_midnight start, end')])"
proof -
  from first_end [OF assms(1,2)] obtain ei where
    a: "add_days (replace_midnight start) 28 = Some ei" and v: "valid_datetime ei" and
    us: "to_us ei = to_us (replace_midnight start) + 28 * day_us"
    by blast
  have ne: "log \<noteq> []"
    using run
  proof (cases rule: trades_cases)
    case overflow
    then show ?thesis using a by simp
  next
    case (raised ei' x)
    then show ?thesis using loop_raise [OF raised(2)] by simp
  next
    case (final ei' si acc calls w1 r)
    then show ?thesis by simp
  qed
  have trailing: "log = calls @ [\<lparr>call_start = si, call_end = end',
                            call_result = fst (get_trades conn w1 si end' symbol type')\<rparr>]"
    if "add_days (replace_midnight start) 28 = Some ei'"
      and "trades_loop conn symbol type' end' w (replace_midnight start) ei' [] =
              (Inr (si, acc), calls, w1)" for ei' si acc calls w1
  proof -
    obtain r w2 where g: "get_trades conn w1 si end' symbol type' = (r, w2)"
      by (cases "get_trades conn w1 si end' symbol type'") auto
    from trades_final [OF that g] run g show ?thesis by simp
  qed
  have same: "windows log = [(replace_midnight start, end')]" if "start = end'"
  proof -
    have "to_us end' < to_us ei"
      using to_us_midnight_le [OF assms(1)] us that by (simp add: day_us_def)
    then have "\<not> dt_less ei end'"
      using that assms(1) by (simp add: dt_less_iff_to_us [OF v])
    from windows_one_call [OF a this, of conn w symbol type'] run show ?thesis by simp
  qed
  show ?thesis using ne trailing same by blast
qed

theorem trades_issues_a_call_counterexample:
  "trades counting_conn 0 (mk_datetime 9999 12 25 0 0 0) (mk_datetime 9999 12 25 0 0 0)
     None None = (Inl OverflowError, [], 0)"
  by code_simp

theorem trades_issues_a_call_witness:
  "valid_datetime (mk_datetime 2018 1 5 0 30 0) \<and>
   ordinal (mk_datetime 2018 1 5 0 30 0) + 28 \<le> MAXORDINAL \<and>
   fst (snd (trades counting_conn 0 (mk_datetime 2018 1 5 0 30 0) (mk_datetime 2018 1 5 0 30 0)
     None None)) \<noteq> [] \<and>
   windows (fst (snd (trades counting_conn 0 (mk_datetime 2018 1 5 0 30 0)
     (mk_datetime 2018 1 5 0 30 0) None None))) =
     [(mk_datetime 2018 1 5 0 0 0, mk_datetime 2018 1 5 0 30 0)]"
proof -
  let ?run = "trades counting_conn 0 (mk_datetime 2018 1 5 0 30 0)
                (mk_datetime 2018 1 5 0 30 0) None None"
  have h1: "valid_datetime (mk_datetime 2018 1 5 0 30 0)" by code_simp
  have h2: "ordinal (mk_datetime 2018 1 5 0 30 0) + 28 \<le> MAXORDINAL" by code_simp
  have m: "replace_midnight (mk_datetime 2018 1 5 0 30 0) = mk_datetime 2018 1 5 0 0 0"
    by code_simp
  obtain res log w' where run: "?run = (res, log, w')"
    by (cases ?run) auto
  from trades_issues_a_call [OF h1 h2 run] show ?thesis
    using h1 h2 m run by simp
qed

text \<open>
  C4 (amended). For every start whose calendar day is no later than 9999-12-03,
  \<^verbatim>\<open>trades\<close> sets the first window's start to the beginning of start's calendar day (hour,
  minute, second and microsecond zeroed) and the first window's end to that plus exactly 28
  days: the first call starts at the one and ends at the other, or at the overall end when
  that comes no later. For a start in the last 28 days of year 9999 the addition of 28 days
  raises \<^verbatim>\<open>OverflowError\<close> and there is no first window.
\<close>

theorem trades_first_window:
  assumes "valid_datetime start" "ordinal start + 28 \<le> MAXORDINAL"
    and run: "trades conn w start end' symbol type' = (res, log, w')"
  shows "replace_midnight start =
           \<lparr>ordinal = ordinal start, hour = 0, minute = 0, second = 0, microsecond = 0\<rparr> \<and>
         add_days (replace_midnight start) 28 =
           Some \<lparr>ordinal = ordinal start + 28, hour = 0, minute = 0, second = 0, microsecond = 0\<rparr> \<and>
         log \<noteq> [] \<and>
         call_start (hd log) = replace_midnight start \<and>
         call_end (hd log) =
           (if dt_less \<lparr>ordinal = ordinal start + 28, hour = 0, minute = 0, second = 0,
                         microsecond = 0\<rparr> end'
            then \<lparr>ordinal = ordinal start + 28, hour = 0, minute = 0, second = 0, microsecond = 0\<rparr>
            else end')"
proof -
  let ?ei = "\<lparr>ordinal = ordinal start + 28, hour = 0, minute = 0, second = 0, microsecond = 0\<rparr>"
  from first_end [OF assms(1,2)] have a: "add_days (replace_midnight start) 28 = Some ?ei"
    by blast
  have hd: "log \<noteq> [] \<and> call_start (hd log) = replace_midnight start \<and>
            call_end (hd log) = (if dt_less ?ei end' then ?ei else end')"
  proof (cases "dt_less ?ei end'")
    case False
    from trades_one_call [OF a False, of conn w symbol type'] run show ?thesis
      using False by (auto split: prod.splits)
  next
    case True
    from run show ?thesis
    proof (cases rule: trades_cases)
      case overflow
      then show ?thesis using a by simp
    next
      case (raised ei x)
      then show ?thesis using a True loop_first_call [OF True, of conn symbol type' w _ "[]"]
        by auto
    next
      case (final ei si acc calls w1 r)
      then show ?thesis using a True loop_first_call [OF True, of conn symbol type' w _ "[]"]
        by auto
    qed
  qed
  show ?thesis using a hd replace_midnight_fields [of start] by simp
qed

theorem trades_first_window_counterexample:
  "add_days (replace_midnight (mk_datetime 9999 12 25 0 30 0)) 28 = None \<and>
   trades counting_conn 0 (mk_datetime 9999 12 25 0 30 0) (mk_datetime 9999 12 31 0 0 0)
     None None = (Inl OverflowError, [], 0)"
  by code_simp

theorem trades_first_window_witness:
  "valid_datetime (mk_datetime 2018 1 5 0 30 0) \<and>
   ordinal (mk_datetime 2018 1 5 0 30 0) + 28 \<le> MAXORDINAL \<and>
   replace_midnight (mk_datetime 2018 1 5 0 30 0) = mk_datetime 2018 1 5 0 0 0 \<and>
   add_days (replace_midnight (mk_datetime 2018 1 5 0 30 0)) 28 = Some (mk_datetime 2018 2 2 0 0 0) \<and>
   call_start (hd (fst (snd (trades counting_conn 0 (mk_datetime 2018 1 5 0 30 0)
     (mk_datetime 2018 3 10 0 0 0) None None)))) = mk_datetime 2018 1 5 0 0 0 \<and>
   call_end (hd (fst (snd (trades counting_conn 0 (mk_datetime 2018 1 5 0 30 0)
     (mk_datetime 2018 3 10 0 0 0) None None)))) = mk_datetime 2018 2 2 0 0 0 \<and>
   windows (fst (snd (trades counting_conn 0 (mk_datetime 2018 1 5 0 30 0)
     (mk_datetime 2018 3 10 0 0 0) None None))) =
     [(mk_datetime 2018 1 5 0 0 0, mk_datetime 2018 2 2 0 0 0),
      (mk_datetime 2018 2 2 0 0 0, mk_datetime 2018 3 2 0 0 0),
      (mk_datetime 2018 3 2 0 0 0, mk_datetime 2018 3 10 0 0 0)]"
proof -
  let ?run = "trades counting_conn 0 (mk_datetime 2018 1 5 0 30 0)
                (mk_datetime 2018 3 10 0 0 0) None None"
  have h1: "valid_datetime (mk_datetime 2018 1 5 0 30 0)" by code_simp
  have h2: "ordinal (mk_datetime 2018 1 5 0 30 0) + 28 \<le> MAXORDINAL" by code_simp
  have o: "ordinal (mk_datetime 2018 1 5 0 30 0) = 736699" by code_simp
  have d1: "mk_datetime 2018 1 5 0 0 0 =
    \<lparr>ordinal = 736699, hour = 0, minute = 0, second = 0, microsecond = 0\<rparr>" by code_simp
  have d2: "mk_datetime 2018 2 2 0 0 0 =
    \<lparr>ordinal = 736727, hour = 0, minute = 0, second = 0, microsecond = 0\<rparr>" by code_simp
  have lt: "dt_less (mk_datetime 2018 2 2 0 0 0) (mk_datetime 2018 3 10 0 0 0)" by code_simp
  have ws: "windows (fst (snd ?run)) =
     [(mk_datetime 2018 1 5 0 0 0, mk_datetime 2018 2 2 0 0 0),
      (mk_datetime 2018 2 2 0 0 0, mk_datetime 2018 3 2 0 0 0),
      (mk_datetime 2018 3 2 0 0 0, mk_datetime 2018 3 10 0 0 0)]" by code_simp
  obtain res log w' where run: "?run = (res, log, w')"
    by (cases ?run) auto
  note th = trades_first_window [OF h1 h2 run, unfolded o]
  have c1: "replace_midnight (mk_datetime 2018 1 5 0 30 0) = mk_datetime 2018 1 5 0 0 0"
    using th [THEN conjunct1] by (simp add: d1)
  have c2: "add_days (replace_midnight (mk_datetime 2018 1 5 0 30 0)) 28 =
              Some (mk_datetime 2018 2 2 0 0 0)"
    using th [THEN conjunct2, THEN conjunct1] by (simp add: d2)
  have c3: "call_start (hd log) = mk_datetime 2018 1 5 0 0 0"
    using th [THEN conjunct2, THEN conjunct2, THEN conjunct2, THEN conjunct1] c1 by simp
  have c4: "call_end (hd log) = mk_datetime 2018 2 2 0 0 0"
    using th [THEN conjunct2, THEN conjunct2, THEN conjunct2, THEN conjunct2] lt
    by (simp add: d2)
  show ?thesis
    using h1 h2 c1 c2 c3 c4 ws run by simp
qed

text \<open>
  C5. In every run of \<^verbatim>\<open>trades\<close> the queried windows are contiguous and do not overlap: each
  call starts where the call before it ended, every call but the last spans exactly 28 days
  and ends before the overall end, and an earlier window ends no later than a later one
  starts. The last call either ends at the overall end itself, which it does whenever the run
  returns, and is then at most 28 days long; or the run raised inside the loop and the last
  call is a 28-day window like the others.
\<close>

theorem trades_windows_contiguous:
  assumes run: "trades conn w start end' symbol type' = (res, log, w')"
  shows "(\<forall>i. Suc i < length log \<longrightarrow>
            call_start (log ! Suc i) = call_end (log ! i) \<and>
            to_us (call_end (log ! i)) - to_us (call_start (log ! i)) = 28 * day_us \<and>
            dt_less (call_end (log ! i)) end') \<and>
         (\<forall>i j. i < j \<and> j < length log \<longrightarrow>
            to_us (call_end (log ! i)) \<le> to_us (call_start (log ! j))) \<and>
         (log \<noteq> [] \<longrightarrow>
            call_end (last log) = end' \<or>
            (\<exists>x. res = Inl x) \<and> dt_less (call_end (last log)) end' \<and>
            to_us (call_end (last log)) - to_us (call_start (last log)) = 28 * day_us) \<and>
         (\<forall>ts. res = Inr ts \<longrightarrow> log \<noteq> [] \<and> call_end (last log) = end') \<and>
         (valid_datetime start \<and> valid_datetime end' \<and> log \<noteq> [] \<and> call_end (last log) = end' \<longrightarrow>
            to_us end' - to_us (call_start (last log)) \<le> 28 * day_us)"
proof -
  from trades_log_shape [OF run]
  have lk: "linked (replace_midnight start) log"
    and fw: "list_all (full_window end') (butlast log)"
    and fin: "\<forall>ts. res = Inr ts \<longrightarrow> log \<noteq> [] \<and> call_end (last log) = end'"
    by blast+
  have full: "add_days (call_start (log ! i)) 28 = Some (call_end (log ! i)) \<and>
              dt_less (call_end (log ! i)) end'" if "Suc i < length log" for i
  proof -
    from that have "i < length (butlast log)" by simp
    then have "full_window end' (butlast log ! i)" using fw by (simp add: list_all_length)
    then show ?thesis using \<open>i < length (butlast log)\<close> by (simp add: nth_butlast full_window_def)
  qed
  have len: "to_us (call_end (log ! i)) = to_us (call_start (log ! i)) + 28 * day_us"
    if "Suc i < length log" for i
    using full [OF that] to_us_add_days by blast
  have a: "\<forall>i. Suc i < length log \<longrightarrow>
            call_start (log ! Suc i) = call_end (log ! i) \<and>
            to_us (call_end (log ! i)) - to_us (call_start (log ! i)) = 28 * day_us \<and>
            dt_less (call_end (log ! i)) end'"
    using linked_Suc [OF lk] full len by simp
  have b: "to_us (call_end (log ! i)) \<le> to_us (call_start (log ! j))"
    if "i < j" "j < length log" for i j
  proof -
    have "Suc i < length log" using that by simp
    then have "to_us (call_end (log ! i)) =
                 to_us (replace_midnight start) + (int i + 1) * (28 * day_us)"
      using len [of i] linked_start [OF lk fw, of i] by (simp add: algebra_simps)
    moreover have "to_us (call_start (log ! j)) =
                 to_us (replace_midnight start) + int j * (28 * day_us)"
      using linked_start [OF lk fw that(2)] .
    moreover have "(int i + 1) * (28 * day_us) \<le> int j * (28 * day_us)"
      using that(1) by (intro mult_right_mono) (simp_all add: day_us_def)
    ultimately show ?thesis by simp
  qed
  have c: "call_end (last log) = end' \<or>
            (\<exists>x. res = Inl x) \<and> dt_less (call_end (last log)) end' \<and>
            to_us (call_end (last log)) - to_us (call_start (last log)) = 28 * day_us"
    if "log \<noteq> []"
    using trades_last_call [OF run that]
  proof
    assume "call_end (last log) = end' \<and>
          (\<exists>ei'. add_days (call_start (last log)) 28 = Some ei' \<and> \<not> dt_less ei' end') \<and>
          (valid_datetime start \<longrightarrow> valid_datetime (call_start (last log)))"
    then show ?thesis by simp
  next
    assume r: "(\<exists>x. res = Inl x) \<and> full_window end' (last log)"
    then have "to_us (call_end (last log)) = to_us (call_start (last log)) + 28 * day_us"
      using to_us_add_days [of "call_start (last log)" 28 "call_end (last log)"]
      by (simp add: full_window_def)
    then show ?thesis using r by (simp add: full_window_def)
  qed
  have d: "to_us end' - to_us (call_start (last log)) \<le> 28 * day_us"
    if v: "valid_datetime start" "valid_datetime end'" and ne: "log \<noteq> []"
      and l: "call_end (last log) = end'"
    using trades_last_call [OF run ne]
  proof
    assume "call_end (last log) = end' \<and>
          (\<exists>ei'. add_days (call_start (last log)) 28 = Some ei' \<and> \<not> dt_less ei' end') \<and>
          (valid_datetime start \<longrightarrow> valid_datetime (call_start (last log)))"
    then obtain ei' where a: "add_days (call_start (last log)) 28 = Some ei'"
      and n: "\<not> dt_less ei' end'" and vs: "valid_datetime (call_start (last log))"
      using v(1) by blast
    have "valid_datetime ei'" using a vs by (rule valid_add_days)
    then have "to_us end' \<le> to_us ei'" using n v(2) by (simp add: dt_less_iff_to_us)
    then show ?thesis using to_us_add_days [OF a] by simp
  next
    assume "(\<exists>x. res = Inl x) \<and> full_window end' (last log)"
    then have "dt_less end' end'" using l by (simp add: full_window_def)
    then show ?thesis by (simp add: dt_less_def)
  qed
  show ?thesis using a b c d fin by blast
qed

theorem trades_windows_contiguous_witness:
  "length (fst (snd (trades counting_conn 0 (mk_datetime 2018 1 5 0 30 0)
          (mk_datetime 2018 3 10 0 0 0) None None))) = 3 \<and>
   call_start (fst (snd (trades counting_conn 0 (mk_datetime 2018 1 5 0 30 0)
          (mk_datetime 2018 3 10 0 0 0) None None)) ! 2) =
   call_end (fst (snd (trades counting_conn 0 (mk_datetime 2018 1 5 0 30 0)
          (mk_datetime 2018 3 10 0 0 0) None None)) ! 1) \<and>
   to_us (call_end (fst (snd (trades counting_conn 0 (mk_datetime 2018 1 5 0 30 0)
          (mk_datetime 2018 3 10 0 0 0) None None)) ! 1)) -
   to_us (call_start (fst (snd (trades counting_conn 0 (mk_datetime 2018 1 5 0 30 0)
          (mk_datetime 2018 3 10 0 0 0) None None)) ! 1)) = 28 * day_us \<and>
   call_end (last (fst (snd (trades counting_conn 0 (mk_datetime 2018 1 5 0 30 0)
          (mk_datetime 2018 3 10 0 0 0) None None)))) = mk_datetime 2018 3 10 0 0 0"
proof -
  let ?run = "trades counting_conn 0 (mk_datetime 2018 1 5 0 30 0)
                (mk_datetime 2018 3 10 0 0 0) None None"
  have len: "length (fst (snd ?run)) = 3"
    by code_simp
  have r: "fst ?run = Inr [0, 1, 2]"
    by code_simp
  then obtain log w' where run: "?run = (Inr [0, 1, 2], log, w')"
    by (cases ?run) auto
  note th = trades_windows_contiguous [OF run]
  have "Suc 1 < length log" using len run by simp
  with th have "call_start (log ! Suc 1) = call_end (log ! 1) \<and>
     to_us (call_end (log ! 1)) - to_us (call_start (log ! 1)) = 28 * day_us"
    by blast
  moreover from th have "call_end (last log) = mk_datetime 2018 3 10 0 0 0"
    by blast
  ultimately show ?thesis using len run by (simp add: numeral_2_eq_2)
qed

text \<open>
  C6. When \<^verbatim>\<open>trades\<close> returns, the list it returns is the concatenation of the lists its
  \<^verbatim>\<open>_get_trades\<close> calls answered with, in the order of the calls: every call answered with
  a list, and nothing is reordered, dropped, deduplicated or inserted.
\<close>

theorem trades_result_is_concatenation:
  assumes "trades conn w start end' symbol type' = (Inr ts, log, w')"
  shows "ts = concat (map call_items log) \<and>
         (\<forall>c \<in> set log. \<exists>p xs. call_result c = Inr (p, Sequence xs))"
  using assms
proof (cases rule: trades_cases)
  case overflow
  then show ?thesis by simp
next
  case (raised ei x)
  then show ?thesis by simp
next
  case (final ei si acc calls w1 r)
  from final(5) obtain p xs where r: "r = Inr (p, Sequence xs)" and ts: "ts = acc @ xs"
    by (auto simp: extend_list_def split: sum.splits data.splits option.splits)
  from loop_result_aux final(2) have acc: "acc = concat (map call_items calls)"
    and ok: "list_all call_ok calls" by fastforce+
  show ?thesis
    using final(4) r ts acc ok by (auto simp: call_items_Sequence list_all_iff call_ok_iff)
qed

theorem trades_result_is_concatenation_witness:
  "fst (trades counting_conn 0 (mk_datetime 2018 1 5 0 30 0) (mk_datetime 2018 3 10 0 0 0)
          None None) = Inr [0, 1, 2] \<and>
   concat (map call_items (fst (snd (trades counting_conn 0 (mk_datetime 2018 1 5 0 30 0)
          (mk_datetime 2018 3 10 0 0 0) None None)))) = [0, 1, 2]"
proof -
  let ?run = "trades counting_conn 0 (mk_datetime 2018 1 5 0 30 0)
                (mk_datetime 2018 3 10 0 0 0) None None"
  have r: "fst ?run = Inr [0, 1, 2]"
    by code_simp
  then obtain log w' where run: "?run = (Inr [0, 1, 2], log, w')"
    by (cases ?run) auto
  from trades_result_is_concatenation [OF run] show ?thesis
    using run by simp
qed

text \<open>
  C7. When a \<^verbatim>\<open>_get_trades\<close> call of a run raises, \<^verbatim>\<open>trades\<close> raises that same exception: it
  returns no list, not even the records of the earlier windows, and the raising call is the
  last call of the run, so no later window is queried.
\<close>

theorem trades_fail_fast:
  assumes run: "trades conn w start end' symbol type' = (res, log, w')"
    and i: "i < length log"
    and x: "call_result (log ! i) = Inl x"
  shows "res = Inl x \<and> Suc i = length log"
  using run
proof (cases rule: trades_cases)
  case overflow
  then show ?thesis using i by simp
next
  case (raised ei y)
  from loop_raise [OF raised(2)] have ne: "log \<noteq> []" and ok: "list_all call_ok (butlast log)"
    and l: "\<forall>z. call_result (last log) = Inl z \<longrightarrow> y = z" by simp_all
  have last: "Suc i = length log"
  proof (rule ccontr)
    assume "Suc i \<noteq> length log"
    with i have "i < length (butlast log)" by simp
    then have "call_ok (log ! i)" using ok by (simp add: list_all_length nth_butlast)
    then show False using x by (simp add: call_ok_iff)
  qed
  then have "i = length log - 1" by simp
  then have "log ! i = last log" using ne by (simp add: last_conv_nth)
  then show ?thesis using l x raised(3) last by simp
next
  case (final ei si acc calls w1 r)
  from loop_result [OF final(2)] have ok: "list_all call_ok calls" by simp
  have last: "i = length calls"
  proof (rule ccontr)
    assume "i \<noteq> length calls"
    with i final(4) have "i < length calls" by simp
    then have "call_ok (log ! i)" using ok final(4) by (simp add: list_all_length nth_append)
    then show False using x by (simp add: call_ok_iff)
  qed
  then have "r = Inl x" using x final(4) by simp
  then show ?thesis using final(4,5) last by simp
qed

theorem trades_fail_fast_witness:
  "fst (trades (failing_conn 1) 0 (mk_datetime 2018 1 5 0 30 0) (mk_datetime 2018 3 10 0 0 0)
          None None) = Inl (Raised ''timeout'') \<and>
   length (fst (snd (trades (failing_conn 1) 0 (mk_datetime 2018 1 5 0 30 0)
          (mk_datetime 2018 3 10 0 0 0) None None))) = 2 \<and>
   call_result (fst (snd (trades (failing_conn 1) 0 (mk_datetime 2018 1 5 0 30 0)
          (mk_datetime 2018 3 10 0 0 0) None None)) ! 1) = Inl (Raised ''timeout'')"
proof -
  let ?run = "trades (failing_conn 1) 0 (mk_datetime 2018 1 5 0 30 0)
                (mk_datetime 2018 3 10 0 0 0) None None"
  have len: "length (fst (snd ?run)) = 2"
    by code_simp
  have x: "call_result (fst (snd ?run) ! 1) = Inl (Raised ''timeout'')"
    by code_simp
  obtain res log w' where run: "?run = (res, log, w')"
    by (cases ?run) auto
  from trades_fail_fast [OF run, of 1 "Raised ''timeout''"] len x run
  have "res = Inl (Raised ''timeout'')" by simp
  then show ?thesis using len x run by simp
qed

text \<open>
  C8 (amended). For every start after end, with start's calendar day no later than
  9999-12-03, the windowing loop of \<^verbatim>\<open>trades\<close> never executes its body, and the trailing
  \<^verbatim>\<open>_get_trades\<close> call is still made, for the window from the beginning of start's day to
  end; \<^verbatim>\<open>trades\<close> raises or returns exactly as that one call does, so no input-validation error
  is raised. The window has negative duration exactly when end falls on an earlier calendar
  day than start; when both are on the same day the window runs forward from 00:00:00.
\<close>

theorem trades_start_after_end:
  assumes "valid_datetime start" "valid_datetime end'"
    and "dt_less end' start"
    and "ordinal start + 28 \<le> MAXORDINAL"
  shows "trades_loop conn symbol type' end' w (replace_midnight start)
           \<lparr>ordinal = ordinal start + 28, hour = 0, minute = 0, second = 0, microsecond = 0\<rparr> [] =
           (Inr (replace_midnight start, []), [], w) \<and>
         trades conn w start end' symbol type' =
           (case get_trades conn w (replace_midnight start) end' symbol type' of (r, w1) \<Rightarrow>
              ((case r of
                  Inl x \<Rightarrow> Inl x
                | Inr (p, d) \<Rightarrow>
                    (case extend_list [] d of None \<Rightarrow> Inl TypeError | Some ts \<Rightarrow> Inr ts)),
               [\<lparr>call_start = replace_midnight start, call_end = end', call_result = r\<rparr>], w1)) \<and>
         (dt_less end' (replace_midnight start) \<longleftrightarrow> ordinal end' < ordinal start)"
proof -
  let ?ei = "\<lparr>ordinal = ordinal start + 28, hour = 0, minute = 0, second = 0, microsecond = 0\<rparr>"
  from first_end [OF assms(1,4)] have
    a: "add_days (replace_midnight start) 28 = Some ?ei" and v: "valid_datetime ?ei" and
    us: "to_us ?ei = to_us (replace_midnight start) + 28 * day_us"
    by blast+
  have "to_us end' < to_us start"
    using assms(3) by (simp add: dt_less_iff_to_us [OF assms(2,1)])
  then have "to_us end' < to_us ?ei"
    using to_us_midnight_le [OF assms(1)] us by (simp add: day_us_def)
  then have stop: "\<not> dt_less ?ei end'"
    by (simp add: dt_less_iff_to_us [OF v assms(2)])
  show ?thesis
    using loop_exit [OF stop, of conn symbol type' w "replace_midnight start" "[]"]
      trades_one_call [OF a stop, of conn w symbol type']
      dt_less_midnight_iff [OF assms(2), of start]
    by blast
qed

theorem trades_start_after_end_counterexample:
  "dt_less (mk_datetime 2018 1 5 6 0 0) (mk_datetime 2018 1 5 12 0 0) \<and>
   windows (fst (snd (trades counting_conn 0 (mk_datetime 2018 1 5 12 0 0)
     (mk_datetime 2018 1 5 6 0 0) None None))) =
     [(mk_datetime 2018 1 5 0 0 0, mk_datetime 2018 1 5 6 0 0)] \<and>
   dt_less (mk_datetime 2018 1 5 0 0 0) (mk_datetime 2018 1 5 6 0 0) \<and>
   dt_less (mk_datetime 9999 12 25 6 0 0) (mk_datetime 9999 12 25 12 0 0) \<and>
   trades counting_conn 0 (mk_datetime 9999 12 25 12 0 0) (mk_datetime 9999 12 25 6 0 0)
     None None = (Inl OverflowError, [], 0)"
  by code_simp

theorem trades_start_after_end_witness:
  "valid_datetime (mk_datetime 2018 1 5 12 0 0) \<and> valid_datetime (mk_datetime 2018 1 3 0 0 0) \<and>
   dt_less (mk_datetime 2018 1 3 0 0 0) (mk_datetime 2018 1 5 12 0 0) \<and>
   ordinal (mk_datetime 2018 1 5 12 0 0) + 28 \<le> MAXORDINAL \<and>
   trades counting_conn 0 (mk_datetime 2018 1 5 12 0 0) (mk_datetime 2018 1 3 0 0 0) None None =
     (Inr [0],
      [\<lparr>call_start = mk_datetime 2018 1 5 0 0 0, call_end = mk_datetime 2018 1 3 0 0 0,
        call_result = Inr (1, Sequence [0])\<rparr>], 1) \<and>
   dt_less (mk_datetime 2018 1 3 0 0 0) (replace_midnight (mk_datetime 2018 1 5 12 0 0))"
proof -
  have h1: "valid_datetime (mk_datetime 2018 1 5 12 0 0)" by code_simp
  have h2: "valid_datetime (mk_datetime 2018 1 3 0 0 0)" by code_simp
  have h3: "dt_less (mk_datetime 2018 1 3 0 0 0) (mk_datetime 2018 1 5 12 0 0)" by code_simp
  have h4: "ordinal (mk_datetime 2018 1 5 12 0 0) + 28 \<le> MAXORDINAL" by code_simp
  have m: "replace_midnight (mk_datetime 2018 1 5 12 0 0) = mk_datetime 2018 1 5 0 0 0"
    by code_simp
  have g: "get_trades counting_conn 0 (mk_datetime 2018 1 5 0 0 0) (mk_datetime 2018 1 3 0 0 0)
             None None = (Inr (1, Sequence [0]), 1)"
    by code_simp
  have o: "ordinal (mk_datetime 2018 1 3 0 0 0) < ordinal (mk_datetime 2018 1 5 12 0 0)"
    by code_simp
  note th = trades_start_after_end [OF h1 h2 h3 h4, of counting_conn None None 0]
  have c1: "trades counting_conn 0 (mk_datetime 2018 1 5 12 0 0) (mk_datetime 2018 1 3 0 0 0)
              None None =
     (Inr [0],
      [\<lparr>call_start = mk_datetime 2018 1 5 0 0 0, call_end = mk_datetime 2018 1 3 0 0 0,
        call_result = Inr (1, Sequence [0])\<rparr>], 1)"
    using th [THEN conjunct2, THEN conjunct1] by (simp add: m g extend_list_def)
  have c2: "dt_less (mk_datetime 2018 1 3 0 0 0) (replace_midnight (mk_datetime 2018 1 5 12 0 0))"
    using th [THEN conjunct2, THEN conjunct2] o by simp
  show ?thesis
    using h1 h2 h3 h4 c1 c2 by simp
qed




end
